theory Spec2Isabelle
  imports Complex_Main "HOL-Library.Multiset"
begin

section \<open>Python values used by the resume scanner\<close>

text \<open>
  A text is a Python \<open>str\<close> whose code points lie in U+0000..U+00FF; every code point
  is one \<open>char\<close>, read through \<open>of_char\<close>, so \<open>length\<close> is Python's \<open>len\<close>.
  Python floats are modelled by exact rationals: the constants \<open>0.3\<close>, \<open>15.0\<close>, ... are
  the rationals they denote and \<open>/\<close> is exact division.
  Exceptions are values of \<open>py_error\<close>; a computation that may raise returns
  \<open>py_error + 'a\<close>.
\<close>

datatype py_error = ZeroDivisionError | ValueError

text \<open>\<open>str.isspace\<close> on one code point below 256 (also the class \<open>\s\<close> of \<open>re\<close>).\<close>

definition is_space :: "char \<Rightarrow> bool" where
  "is_space c =
     (let n = (of_char c :: nat)
      in (9 \<le> n \<and> n \<le> 13) \<or> (28 \<le> n \<and> n \<le> 32) \<or> n = 133 \<or> n = 160)"

text \<open>The class \<open>\d\<close> of \<open>re\<close>: the decimal digits; below 256 these are \<open>0\<close>..\<open>9\<close>.\<close>

definition is_digit :: "char \<Rightarrow> bool" where
  "is_digit c = (let n = (of_char c :: nat) in 48 \<le> n \<and> n \<le> 57)"

text \<open>
  The class \<open>\w\<close> of \<open>re\<close> on a \<open>str\<close>: alphanumeric code points and the underscore.
  Below 256 these are the ASCII letters and digits, \<open>_\<close>, U+00AA, U+00B2, U+00B3,
  U+00B5, U+00B9, U+00BA, U+00BC..U+00BE and the letters U+00C0..U+00FF
  (all but U+00D7 and U+00F7).
\<close>

definition is_word :: "char \<Rightarrow> bool" where
  "is_word c =
     (let n = (of_char c :: nat)
      in (48 \<le> n \<and> n \<le> 57) \<or> (65 \<le> n \<and> n \<le> 90) \<or> n = 95 \<or> (97 \<le> n \<and> n \<le> 122)
         \<or> n = 170 \<or> n = 178 \<or> n = 179 \<or> n = 181 \<or> n = 185 \<or> n = 186
         \<or> (188 \<le> n \<and> n \<le> 190) \<or> (192 \<le> n \<and> n \<le> 214) \<or> (216 \<le> n \<and> n \<le> 246)
         \<or> (248 \<le> n \<and> n \<le> 255))"

text \<open>\<open>str.lower\<close>: below 256 the upper-case letters are \<open>A\<close>..\<open>Z\<close> and U+00C0..U+00DE
  without U+00D7; each maps to the code point 32 above it.\<close>

definition lower_char :: "char \<Rightarrow> char" where
  "lower_char c =
     (let n = (of_char c :: nat)
      in if (65 \<le> n \<and> n \<le> 90) \<or> (192 \<le> n \<and> n \<le> 222 \<and> n \<noteq> 215)
         then char_of (n + 32) else c)"

definition lower :: "string \<Rightarrow> string" where
  "lower s = map lower_char s"

text \<open>
  \<open>str.split(sep)\<close> for a one-character separator, stated for any set of separator
  characters: the segments between separators, empty ones included, so a text with
  \<open>n\<close> separators has \<open>n + 1\<close> segments.
\<close>

fun split_when :: "(char \<Rightarrow> bool) \<Rightarrow> string \<Rightarrow> string list" where
  "split_when p [] = [[]]"
| "split_when p (c # cs) =
     (if p c then [] # split_when p cs
      else (case split_when p cs of
              [] \<Rightarrow> [[c]]
            | w # ws \<Rightarrow> (c # w) # ws))"

text \<open>\<open>text.split('.')\<close>.\<close>

definition split_dot :: "string \<Rightarrow> string list" where
  "split_dot s = split_when (\<lambda>c. c = CHR ''.'') s"

text \<open>\<open>text.split()\<close>: split at runs of whitespace, no empty strings in the result.\<close>

definition split_ws :: "string \<Rightarrow> string list" where
  "split_ws s = filter (\<lambda>w. w \<noteq> []) (split_when is_space s)"

text \<open>True division \<open>a / b\<close> of Python.\<close>

definition py_div :: "rat \<Rightarrow> rat \<Rightarrow> py_error + rat" where
  "py_div a b = (if b = 0 then Inl ZeroDivisionError else Inr (a / b))"



text \<open>\<open>max(xs)\<close> on a list: \<open>ValueError\<close> on the empty list.\<close>

definition py_max :: "'a::linorder list \<Rightarrow> py_error + 'a" where
  "py_max xs = (case xs of [] \<Rightarrow> Inl ValueError | x # ys \<Rightarrow> Inr (fold max ys x))"


text \<open>\<open>w in s\<close> on strings: \<open>w\<close> occurs in \<open>s\<close> as a contiguous substring.\<close>

fun contains :: "string \<Rightarrow> string \<Rightarrow> bool" where
  "contains w [] = (w = [])"
| "contains w (c # cs) = (take (length w) (c # cs) = w \<or> contains w cs)"


text \<open>
  \<open>sorted(xs, key=key, reverse=rv)\<close>: a stable sort by key; with \<open>reverse=True\<close> the
  list is reversed, sorted and reversed back, so that elements with equal keys keep
  their original order in both directions.
\<close>

definition py_sorted :: "('a \<Rightarrow> 'k::linorder) \<Rightarrow> bool \<Rightarrow> 'a list \<Rightarrow> 'a list" where
  "py_sorted key rv xs = (if rv then rev (sort_key key (rev xs)) else sort_key key xs)"

section \<open>Document statistics (\<open>document_processor.py\<close>)\<close>

record doc_stats =
  word_count :: nat
  sentence_count :: nat
  avg_word_length :: rat
  char_count :: nat

text \<open>The body of the \<open>try\<close> block of \<open>get_document_stats\<close>.\<close>

definition get_document_stats_try :: "string \<Rightarrow> py_error + doc_stats" where
  "get_document_stats_try text =
     (let words = split_ws text;
          sentences = split_dot text
      in case (if words \<noteq> []
               then py_div (of_nat (sum_list (map length words))) (of_nat (length words))
               else Inr 0) of
           Inl e \<Rightarrow> Inl e
         | Inr avg \<Rightarrow>
             Inr \<lparr>word_count = length words,
                  sentence_count = length sentences,
                  avg_word_length = avg,
                  char_count = length text\<rparr>)"

text \<open>\<open>get_document_stats\<close>: the \<open>except\<close> branch answers with the all-zero record.\<close>

definition get_document_stats :: "string \<Rightarrow> doc_stats" where
  "get_document_stats text =
     (case get_document_stats_try text of
        Inr st \<Rightarrow> st
      | Inl e \<Rightarrow> \<lparr>word_count = 0, sentence_count = 0, avg_word_length = 0, char_count = 0\<rparr>)"

section \<open>Regular expressions of \<open>re\<close>, as far as the scorer uses them\<close>

text \<open>
  The patterns of the scorer use literals, the classes \<open>\d\<close>, \<open>\s\<close> and \<open>[\+]\<close>,
  the assertion \<open>\b\<close>, concatenation, alternation, the greedy \<open>?\<close>, the greedy
  \<open>*\<close> and \<open>+\<close> on a class, and one capturing group.
\<close>

datatype cclass = Digit | Space | OneOf string

fun in_class :: "cclass \<Rightarrow> char \<Rightarrow> bool" where
  "in_class Digit c = is_digit c"
| "in_class Space c = is_space c"
| "in_class (OneOf cs) c = (c \<in> set cs)"

datatype regex =
    Lit string
  | Cls cclass
  | WordB
  | Seq regex regex
  | Alt "regex list"
  | Opt regex
  | Star cclass
  | Plus cclass
  | Group regex

text \<open>
  A position of the matcher: the character before it (none at the start of the text),
  the text still ahead, and what group 1 has captured on the way here.
\<close>

record mstate =
  prev :: "char option"
  rest :: string
  grp :: "string option"

text \<open>\<open>\b\<close>: exactly one of the characters before and after the position is a word
  character; the start and the end of the text count as non-word.\<close>

definition at_boundary :: "char option \<Rightarrow> string \<Rightarrow> bool" where
  "at_boundary p r =
     ((case p of None \<Rightarrow> False | Some c \<Rightarrow> is_word c)
      \<noteq> (case r of [] \<Rightarrow> False | c # _ \<Rightarrow> is_word c))"

fun advance :: "nat \<Rightarrow> mstate \<Rightarrow> mstate" where
  "advance 0 st = st"
| "advance (Suc n) st =
     (case rest st of
        [] \<Rightarrow> st
      | c # cs \<Rightarrow> advance n (st\<lparr>prev := Some c, rest := cs\<rparr>))"

text \<open>
  The backtracking matcher: \<open>rmatch r st\<close> lists the positions at which a match of
  \<open>r\<close> starting at \<open>st\<close> can end, in the order in which the engine tries them (an
  earlier alternative first, a longer repetition first). The head of the list is the
  match the engine reports.
\<close>

fun rmatch :: "regex \<Rightarrow> mstate \<Rightarrow> mstate list" where
  "rmatch (Lit w) st =
     (if take (length w) (rest st) = w then [advance (length w) st] else [])"
| "rmatch (Cls k) st =
     (case rest st of
        [] \<Rightarrow> []
      | c # cs \<Rightarrow> if in_class k c then [advance 1 st] else [])"
| "rmatch WordB st = (if at_boundary (prev st) (rest st) then [st] else [])"
| "rmatch (Seq r1 r2) st = concat (map (rmatch r2) (rmatch r1 st))"
| "rmatch (Alt rs) st = concat (map (\<lambda>r. rmatch r st) rs)"
| "rmatch (Opt r) st = rmatch r st @ [st]"
| "rmatch (Star k) st =
     map (\<lambda>n. advance n st) (rev [0 ..< Suc (length (takeWhile (in_class k) (rest st)))])"
| "rmatch (Plus k) st =
     map (\<lambda>n. advance n st) (rev [1 ..< Suc (length (takeWhile (in_class k) (rest st)))])"
| "rmatch (Group r) st =
     map (\<lambda>st'. st'\<lparr>grp := Some (take (length (rest st) - length (rest st')) (rest st))\<rparr>)
         (rmatch r st)"

text \<open>
  \<open>re.findall\<close> for a pattern with one group: scan from the left; where the pattern
  matches, report the group and go on behind the match; elsewhere step one character.
  (Neither pattern of the scorer matches the empty string; after an empty match this
  scan steps one character.)
\<close>

function findall_from :: "regex \<Rightarrow> char option \<Rightarrow> string \<Rightarrow> string list" where
  "findall_from r p s =
     (case rmatch r \<lparr>prev = p, rest = s, grp = None\<rparr> of
        [] \<Rightarrow> (case s of [] \<Rightarrow> [] | c # cs \<Rightarrow> findall_from r (Some c) cs)
      | st # _ \<Rightarrow>
          (case grp st of None \<Rightarrow> [] | Some g \<Rightarrow> g)
          # (if length (rest st) < length s then findall_from r (prev st) (rest st)
             else (case s of [] \<Rightarrow> [] | c # cs \<Rightarrow> findall_from r (Some c) cs)))"
  by pat_completeness auto
termination
  by (relation "measure (\<lambda>(r, p, s). length s)") auto

definition findall :: "regex \<Rightarrow> string \<Rightarrow> string list" where
  "findall r s = findall_from r None s"

section \<open>The scorer (\<open>ml_scorer.py\<close>)\<close>

text \<open>The vocabulary of \<open>extract_skills\<close>, in the order of the pattern.\<close>

definition skill_vocabulary :: "string list" where
  "skill_vocabulary =
     [''python'', ''java'', ''javascript'', ''c++'', ''ruby'', ''php'', ''sql'', ''html'',
      ''css'', ''react'', ''angular'', ''vue'', ''node.js'', ''docker'', ''kubernetes'',
      ''aws'', ''azure'', ''git'', ''machine learning'', ''deep learning'', ''ai'', ''nlp'']"

text \<open>\<open>r'\b(python|java|...|nlp)\b'\<close>.\<close>

definition tech_patterns :: regex where
  "tech_patterns = Seq WordB (Seq (Group (Alt (map Lit skill_vocabulary))) WordB)"

text \<open>
  \<open>extract_skills\<close> returns \<open>list(set(skills))\<close>, a duplicate-free list in no
  specified order, which its caller turns into a set again: the model returns the set.
\<close>

definition extract_skills :: "string \<Rightarrow> string set" where
  "extract_skills text = set (findall tech_patterns (lower text))"

definition education_scores :: "(string \<times> rat) list" where
  "education_scores =
     [(''phd'', 1), (''master'', 8 / 10), (''bachelor'', 6 / 10), (''associate'', 4 / 10)]"

text \<open>The test of the loop of \<open>extract_education\<close>:
  \<open>level in text_lower or f"{level}'s" in text_lower\<close>.\<close>

definition level_found :: "string \<Rightarrow> string \<Rightarrow> bool" where
  "level_found text_lower level =
     (contains level text_lower \<or> contains (level @ [CHR 0x27, CHR ''s'']) text_lower)"

definition extract_education :: "string \<Rightarrow> py_error + rat" where
  "extract_education text =
     (let text_lower = lower text;
          found_scores = map snd (filter (\<lambda>(level, score). level_found text_lower level)
                                         education_scores)
      in if found_scores \<noteq> [] then py_max found_scores else Inr (3 / 10))"



record scores =
  content_similarity :: rat
  skills_match :: rat
  education_level :: rat
  experience_level :: rat
  overall_score :: rat
  matched_skills :: "string set"
  missing_skills :: "string set"



section \<open>Ranking (\<open>main.py\<close>)\<close>

text \<open>One entry of \<open>results\<close> in \<open>process_resumes\<close>; the entities are those the NLP
  library found, by category.\<close>

record resume_result =
  filename :: string
  resume_text :: string
  stats :: doc_stats
  entities :: "(string \<times> string list) list"
  scores :: scores

text \<open>The return statement of \<open>process_resumes\<close>:
  \<open>sorted(results, key=lambda x: x['scores']['overall_score'], reverse=True)\<close>.\<close>

definition rank_results :: "resume_result list \<Rightarrow> resume_result list" where
  "rank_results results = py_sorted (\<lambda>x. overall_score (scores x)) True results"

text \<open>A result with a given file name and overall score and nothing else in it, for
  the ranking example R1 (80), R2 (95), R3 (80).\<close>

definition example_result :: "string \<Rightarrow> rat \<Rightarrow> resume_result" where
  "example_result name overall =
     \<lparr>filename = name, resume_text = [], stats = get_document_stats [], entities = [],
      scores = \<lparr>content_similarity = 0, skills_match = 0, education_level = 0,
                experience_level = 0, overall_score = overall,
                matched_skills = {}, missing_skills = {}\<rparr>\<rparr>"

section \<open>What the specification says, for comparison with the code\<close>

text \<open>\<open>w\<close> occurs in \<open>s\<close>: \<open>s\<close> is some text, then \<open>w\<close>, then some text.\<close>

definition occurs_in :: "string \<Rightarrow> string \<Rightarrow> bool" where
  "occurs_in w s = (\<exists>pre post. s = pre @ w @ post)"

text \<open>
  The education level of the specification: the greatest of the fixed scores of the
  keywords that occur in the lower-cased text, bare or in the possessive form, and the
  baseline \<open>0.3\<close> when none occurs.
\<close>

definition spec_education :: "string \<Rightarrow> rat" where
  "spec_education t =
     (let found = {score. \<exists>level. (level, score) \<in> {(''phd'', 1), (''master'', 8 / 10),
                                      (''bachelor'', 6 / 10), (''associate'', 4 / 10)}
                     \<and> (occurs_in level (lower t)
                        \<or> occurs_in (level @ [CHR 0x27, CHR ''s'']) (lower t))}
      in if found = {} then 3 / 10 else Max found)"

section \<open>Patterns as sets of texts\<close>

text \<open>
  The texts a pattern can match when boundaries are left aside: \<open>lang r\<close> holds the
  text between the start and the end of any match of \<open>r\<close>.
\<close>

fun lang :: "regex \<Rightarrow> string set" where
  "lang (Lit w) = {w}"
| "lang (Cls k) = {[c] | c. in_class k c}"
| "lang WordB = {[]}"
| "lang (Seq r1 r2) = {u @ v | u v. u \<in> lang r1 \<and> v \<in> lang r2}"
| "lang (Alt rs) = (\<Union>r \<in> set rs. lang r)"
| "lang (Opt r) = insert [] (lang r)"
| "lang (Star k) = {w. \<forall>c \<in> set w. in_class k c}"
| "lang (Plus k) = {w. w \<noteq> [] \<and> (\<forall>c \<in> set w. in_class k c)}"
| "lang (Group r) = lang r"



section \<open>What the specification says of the experience level\<close>





section \<open>Properties of the document statistics\<close>

lemma split_when_nonempty: "split_when p s \<noteq> []"
  by (induction s) (auto split: list.splits)

lemma length_split_when: "length (split_when p s) = Suc (length (filter p s))"
proof (induction s)
  case Nil
  show ?case by simp
next
  case (Cons c cs)
  then show ?case
    by (cases "split_when p cs") (auto simp: split_when_nonempty)
qed

lemma get_document_stats_try_ok:
  "get_document_stats_try text =
     Inr \<lparr>word_count = length (split_ws text),
          sentence_count = length (split_dot text),
          avg_word_length =
            (if split_ws text = [] then 0
             else of_nat (sum_list (map length (split_ws text))) / of_nat (length (split_ws text))),
          char_count = length text\<rparr>"
  by (simp add: get_document_stats_try_def py_div_def Let_def)

text \<open>
  Claim C3, as amended: on the empty string the statistics are \<open>word_count = 0\<close>,
  \<open>avg_word_length = 0\<close> and \<open>char_count = 0\<close>, and \<open>sentence_count = 1\<close>, since
  \<open>''.split('.')\<close> is the one-element list \<open>['']\<close>.
\<close>

theorem C3_stats_empty:
  "get_document_stats [] =
     \<lparr>word_count = 0, sentence_count = 1, avg_word_length = 0, char_count = 0\<rparr>"
  by (simp add: get_document_stats_def get_document_stats_try_def split_ws_def split_dot_def)

text \<open>
  Claim C3 as stated fails: the sentence count of the empty string is not zero, so the
  statistics of the empty string are not the all-zero record.
\<close>

theorem C3_counterexample:
  "sentence_count (get_document_stats []) \<noteq> 0"
  by (simp add: get_document_stats_def get_document_stats_try_def split_ws_def split_dot_def)

text \<open>
  Claim C10: for every text, the empty string included, the sentence count is at least
  one; it is one more than the number of \<open>.\<close> characters of the text.
\<close>

theorem C10_sentence_count_positive:
  "sentence_count (get_document_stats t) \<ge> 1
   \<and> sentence_count (get_document_stats t) = Suc (length (filter (\<lambda>c. c = CHR ''.'') t))"
  by (simp add: get_document_stats_def get_document_stats_try_ok split_dot_def length_split_when)

theorem C10_witness:
  "sentence_count (get_document_stats ''Dr. Who. Hello.'') \<ge> 1
   \<and> sentence_count (get_document_stats ''Dr. Who. Hello.'') = 4"
  using C10_sentence_count_positive [of "''Dr. Who. Hello.''"] by simp

section \<open>Properties of the ranking\<close>

lemma py_sorted_reverse_sorted:
  "sorted_wrt (\<lambda>a b. key b \<le> key a) (py_sorted key True xs)"
proof -
  have "sorted (map key (sort_key key (rev xs)))" by simp
  then have "sorted_wrt (\<lambda>a b. key a \<le> key b) (sort_key key (rev xs))"
    by (simp add: sorted_map)
  then show ?thesis
    by (simp add: py_sorted_def sorted_wrt_rev)
qed

lemma py_sorted_mset: "mset (py_sorted key rv xs) = mset xs"
  by (simp add: py_sorted_def)

lemma py_sorted_stable:
  "filter (\<lambda>x. key x = k) (py_sorted key rv xs) = filter (\<lambda>x. key x = k) xs"
proof (cases rv)
  case True
  have "filter (\<lambda>x. key x = k) (rev (sort_key key (rev xs)))
        = rev (filter (\<lambda>x. key x = k) (sort_key key (rev xs)))"
    by (simp add: rev_filter)
  also have "\<dots> = rev (filter (\<lambda>x. key x = k) (rev xs))"
    by (simp only: sort_key_stable)
  also have "\<dots> = filter (\<lambda>x. key x = k) xs"
    by (simp add: rev_filter)
  finally show ?thesis using True by (simp add: py_sorted_def)
next
  case False
  then show ?thesis by (simp add: py_sorted_def sort_key_stable)
qed

text \<open>
  Claim C9: the ranking is sorted by overall score, highest first, it is a rearrangement
  of the results, and results with the same overall score keep their order of
  arrival; so R1 (80), R2 (95), R3 (80) are ranked R2, R1, R3.
\<close>

theorem C9_ranking_stable:
  "sorted_wrt (\<lambda>a b. overall_score (scores b) \<le> overall_score (scores a)) (rank_results rs)
   \<and> mset (rank_results rs) = mset rs
   \<and> filter (\<lambda>r. overall_score (scores r) = k) (rank_results rs)
       = filter (\<lambda>r. overall_score (scores r) = k) rs
   \<and> (overall_score (scores r1) = 80 \<and> overall_score (scores r2) = 95
        \<and> overall_score (scores r3) = 80
        \<longrightarrow> rank_results [r1, r2, r3] = [r2, r1, r3])"
proof (intro conjI impI)
  show "sorted_wrt (\<lambda>a b. overall_score (scores b) \<le> overall_score (scores a)) (rank_results rs)"
    unfolding rank_results_def by (rule py_sorted_reverse_sorted)
  show "mset (rank_results rs) = mset rs"
    unfolding rank_results_def by (rule py_sorted_mset)
  show "filter (\<lambda>r. overall_score (scores r) = k) (rank_results rs)
       = filter (\<lambda>r. overall_score (scores r) = k) rs"
    unfolding rank_results_def by (rule py_sorted_stable)
next
  assume "overall_score (scores r1) = 80 \<and> overall_score (scores r2) = 95
        \<and> overall_score (scores r3) = 80"
  then show "rank_results [r1, r2, r3] = [r2, r1, r3]"
    by (simp add: rank_results_def py_sorted_def)
qed

theorem C9_witness:
  "rank_results [example_result ''R1'' 80, example_result ''R2'' 95, example_result ''R3'' 80]
     = [example_result ''R2'' 95, example_result ''R1'' 80, example_result ''R3'' 80]
   \<and> filter (\<lambda>r. overall_score (scores r) = 80)
        (rank_results [example_result ''R1'' 80, example_result ''R2'' 95, example_result ''R3'' 80])
     = [example_result ''R1'' 80, example_result ''R3'' 80]"
  using C9_ranking_stable [of "[example_result ''R1'' 80, example_result ''R2'' 95, example_result ''R3'' 80]"
      80 "example_result ''R1'' 80" "example_result ''R2'' 95" "example_result ''R3'' 80"]
  by (simp add: example_result_def)

section \<open>Properties of the education level\<close>

lemma take_eq_iff_prefix: "(take (length w) s = w) = (\<exists>post. s = w @ post)"
proof
  assume "take (length w) s = w"
  then have "s = w @ drop (length w) s"
    by (metis append_take_drop_id)
  then show "\<exists>post. s = w @ post" ..
next
  assume "\<exists>post. s = w @ post"
  then show "take (length w) s = w" by auto
qed

lemma contains_iff: "contains w s = occurs_in w s"
proof (induction s)
  case Nil
  show ?case by (auto simp: occurs_in_def)
next
  case (Cons c cs)
  have "occurs_in w (c # cs) = ((\<exists>post. c # cs = w @ post) \<or> occurs_in w cs)"
  proof
    assume "occurs_in w (c # cs)"
    then obtain pre post where eq: "c # cs = pre @ w @ post"
      by (auto simp: occurs_in_def)
    show "(\<exists>post. c # cs = w @ post) \<or> occurs_in w cs"
    proof (cases pre)
      case Nil
      with eq show ?thesis by auto
    next
      case (Cons a pre')
      with eq have "cs = pre' @ w @ post" by simp
      then show ?thesis by (auto simp: occurs_in_def)
    qed
  next
    assume "(\<exists>post. c # cs = w @ post) \<or> occurs_in w cs"
    then show "occurs_in w (c # cs)"
    proof
      assume "\<exists>post. c # cs = w @ post"
      then obtain post where "c # cs = [] @ w @ post" by auto
      then show ?thesis unfolding occurs_in_def by blast
    next
      assume "occurs_in w cs"
      then obtain pre post where "cs = pre @ w @ post" by (auto simp: occurs_in_def)
      then have "c # cs = (c # pre) @ w @ post" by simp
      then show ?thesis unfolding occurs_in_def by blast
    qed
  qed
  with Cons show ?case
    by (simp only: contains.simps take_eq_iff_prefix)
qed

lemma py_max_Max: "xs \<noteq> [] \<Longrightarrow> py_max xs = Inr (Max (set xs))"
proof (cases xs)
  case Nil
  assume "xs \<noteq> []"
  with Nil show ?thesis by simp
next
  case (Cons x ys)
  have "fold max ys x = Max (set (x # ys))"
    by (rule Max.set_eq_fold [symmetric])
  with Cons show ?thesis by (simp add: py_max_def)
qed

lemma set_found_scores:
  "set (map snd (filter (\<lambda>(level, score). P level) xs))
     = {score. \<exists>level. (level, score) \<in> set xs \<and> P level}"
  by (induction xs) auto

lemma set_education_scores:
  "set education_scores = {(''phd'', 1), (''master'', 8 / 10),
                           (''bachelor'', 6 / 10), (''associate'', 4 / 10)}"
  unfolding education_scores_def by (simp only: list.set)

lemma snd_education_scores:
  "snd ` set education_scores = {1, 8 / 10, 6 / 10, 4 / 10}"
  unfolding education_scores_def by simp

lemma extract_education_found:
  fixes t :: string
  defines "found \<equiv> map snd (filter (\<lambda>(level, score). level_found (lower t) level)
                                     education_scores)"
  shows "extract_education t = Inr (if set found = {} then 3 / 10 else Max (set found))"
proof -
  have "extract_education t = (if found \<noteq> [] then py_max found else Inr (3 / 10))"
    unfolding extract_education_def found_def Let_def ..
  then show ?thesis by (simp add: py_max_Max)
qed

lemma extract_education_spec: "extract_education t = Inr (spec_education t)"
proof -
  have "set (map snd (filter (\<lambda>(level, score). level_found (lower t) level) education_scores))
        = {score. \<exists>level. (level, score) \<in> {(''phd'', 1), (''master'', 8 / 10),
                                      (''bachelor'', 6 / 10), (''associate'', 4 / 10)}
                     \<and> (occurs_in level (lower t)
                        \<or> occurs_in (level @ [CHR 0x27, CHR ''s'']) (lower t))}"
    unfolding set_found_scores set_education_scores level_found_def contains_iff ..
  then show ?thesis
    unfolding extract_education_found spec_education_def Let_def by (simp only:)
qed

lemma extract_education_bounds:
  "\<exists>e. extract_education t = Inr e \<and> 3 / 10 \<le> e \<and> e \<le> 1"
proof -
  define found where "found = map snd (filter (\<lambda>(level, score). level_found (lower t) level)
                                         education_scores)"
  have "set found \<subseteq> snd ` set education_scores"
    unfolding found_def by auto
  then have "set found \<subseteq> {1, 8 / 10, 6 / 10, 4 / 10}"
    by (simp only: snd_education_scores)
  then have sub: "\<forall>x \<in> set found. 3 / 10 \<le> x \<and> x \<le> 1"
    by auto
  have eq: "extract_education t = Inr (if set found = {} then 3 / 10 else Max (set found))"
    unfolding found_def by (rule extract_education_found)
  show ?thesis
  proof (cases "set found = {}")
    case True
    with eq have "extract_education t = Inr (3 / 10)" by simp
    then show ?thesis by (intro exI [of _ "3 / 10"]) simp
  next
    case False
    then have "Max (set found) \<in> set found" by (intro Max_in) auto
    with sub have "3 / 10 \<le> Max (set found) \<and> Max (set found) \<le> 1" by blast
    moreover from eq False have "extract_education t = Inr (Max (set found))" by simp
    ultimately show ?thesis by (intro exI [of _ "Max (set found)"]) simp
  qed
qed

text \<open>
  Claim C5: \<open>extract_education\<close> never raises; its result is the greatest fixed score
  among the education keywords occurring in the lower-cased text (bare or possessive),
  or the baseline \<open>0.3\<close> when there is none; it lies between \<open>0.3\<close> and \<open>1\<close>; and
  on \<open>PhD in CS\<close> it is \<open>1\<close>.
\<close>

theorem C5_extract_education:
  "extract_education t = Inr (spec_education t)
   \<and> 3 / 10 \<le> spec_education t \<and> spec_education t \<le> 1
   \<and> extract_education ''PhD in CS'' = Inr 1"
proof -
  have a: "extract_education t = Inr (spec_education t)" by (rule extract_education_spec)
  from extract_education_bounds [of t] a
  have b: "3 / 10 \<le> spec_education t \<and> spec_education t \<le> 1" by auto
  have c: "extract_education ''PhD in CS'' = Inr 1"
    by code_simp
  from a b c show ?thesis by blast
qed

theorem C5_witness:
  "extract_education ''MASTER of Science; Associate of Arts'' = Inr (8 / 10)
   \<and> spec_education ''MASTER of Science; Associate of Arts'' = 8 / 10
   \<and> spec_education ''no degree'' = 3 / 10"
proof -
  have a: "extract_education ''MASTER of Science; Associate of Arts'' = Inr (8 / 10)"
    by code_simp
  have b: "extract_education ''no degree'' = Inr (3 / 10)"
    by code_simp
  from a b C5_extract_education [of "''MASTER of Science; Associate of Arts''"]
    C5_extract_education [of "''no degree''"]
  show ?thesis by simp
qed

section \<open>Properties of rounding\<close>








section \<open>Properties of the experience level\<close>



section \<open>Properties of the composite score\<close>


















section \<open>The matcher finds the texts of a pattern\<close>

lemma rest_advance: "rest (advance n st) = drop n (rest st)"
proof (induction n arbitrary: st)
  case 0
  show ?case by simp
next
  case (Suc n)
  show ?case
  proof (cases "rest st")
    case Nil
    then show ?thesis by simp
  next
    case (Cons c cs)
    then show ?thesis by (simp add: Suc)
  qed
qed


lemma take_within_run:
  "n \<le> length (takeWhile P xs) \<Longrightarrow> take n xs = take n (takeWhile P xs)"
proof (induction xs arbitrary: n)
  case Nil
  show ?case by simp
next
  case (Cons x xs)
  show ?case
  proof (cases n)
    case 0
    then show ?thesis by simp
  next
    case (Suc m)
    show ?thesis
    proof (cases "P x")
      case True
      with Cons.prems Suc have "m \<le> length (takeWhile P xs)" by simp
      from Cons.IH [OF this] True Suc show ?thesis by simp
    next
      case False
      with Cons.prems Suc show ?thesis by simp
    qed
  qed
qed

lemma take_within_run_all:
  assumes "n \<le> length (takeWhile P xs)" and "c \<in> set (take n xs)"
  shows "P c"
proof -
  from assms have "c \<in> set (take n (takeWhile P xs))"
    by (simp only: take_within_run [OF assms(1)])
  then have "c \<in> set (takeWhile P xs)" by (rule in_set_takeD)
  then show ?thesis by (rule set_takeWhileD [THEN conjunct2])
qed

lemma in_map_rev_upt:
  "(x \<in> set (map f (rev [a ..< b]))) = (\<exists>n. a \<le> n \<and> n < b \<and> x = f n)"
  by auto

lemma rmatch_sound:
  "st' \<in> set (rmatch r st) \<Longrightarrow> \<exists>w \<in> lang r. rest st = w @ rest st'"
proof (induction r st arbitrary: st' rule: rmatch.induct)
  case (1 w st)
  then have t: "take (length w) (rest st) = w" and s: "st' = advance (length w) st"
    by (auto split: if_splits)
  have "rest st = take (length w) (rest st) @ drop (length w) (rest st)" by simp
  with t s show ?case by (simp add: rest_advance)
next
  case (2 k st)
  then obtain c cs where r: "rest st = c # cs" and k: "in_class k c" and s: "st' = advance 1 st"
    by (auto split: list.splits if_splits)
  from r s have "rest st' = cs" by (simp add: rest_advance)
  with r k show ?case by auto
next
  case (3 st)
  then show ?case by (auto split: if_splits)
next
  case (4 r1 r2 st)
  from 4(3) obtain st1 where a: "st1 \<in> set (rmatch r1 st)" and b: "st' \<in> set (rmatch r2 st1)"
    by auto
  from 4(1) [OF a] obtain u where u: "u \<in> lang r1" "rest st = u @ rest st1" by blast
  from 4(2) [OF a b] obtain v where v: "v \<in> lang r2" "rest st1 = v @ rest st'" by blast
  from u v have "u @ v \<in> lang (Seq r1 r2)" "rest st = (u @ v) @ rest st'" by auto
  then show ?case by blast
next
  case (5 rs st)
  from 5(2) obtain r where r: "r \<in> set rs" and b: "st' \<in> set (rmatch r st)" by auto
  from 5(1) [OF r b] r show ?case by auto
next
  case (6 r st)
  from 6(2) have "st' \<in> set (rmatch r st) \<or> st' = st" by auto
  then show ?case
  proof
    assume "st' \<in> set (rmatch r st)"
    from 6(1) [OF this] show ?thesis by auto
  next
    assume "st' = st"
    then show ?thesis by simp
  qed
next
  case (7 k st)
  then have "\<exists>n. 0 \<le> n \<and> n < Suc (length (takeWhile (in_class k) (rest st))) \<and> st' = advance n st"
    by (simp only: rmatch.simps in_map_rev_upt)
  then obtain n where "n < Suc (length (takeWhile (in_class k) (rest st)))" and s: "st' = advance n st"
    by blast
  then have n: "n \<le> length (takeWhile (in_class k) (rest st))" by simp
  have "\<forall>c \<in> set (take n (rest st)). in_class k c"
    using take_within_run_all [OF n] by blast
  moreover have "rest st = take n (rest st) @ rest st'"
    using s by (simp add: rest_advance)
  ultimately show ?case by auto
next
  case (8 k st)
  then have "\<exists>n. 1 \<le> n \<and> n < Suc (length (takeWhile (in_class k) (rest st))) \<and> st' = advance n st"
    by (simp only: rmatch.simps in_map_rev_upt)
  then obtain n where "n < Suc (length (takeWhile (in_class k) (rest st)))" and n1: "1 \<le> n"
    and s: "st' = advance n st"
    by blast
  then have n: "n \<le> length (takeWhile (in_class k) (rest st))" by simp
  have "\<forall>c \<in> set (take n (rest st)). in_class k c"
    using take_within_run_all [OF n] by blast
  moreover have "rest st = take n (rest st) @ rest st'"
    using s by (simp add: rest_advance)
  moreover have "n \<le> length (rest st)"
    using n length_takeWhile_le [of "in_class k" "rest st"] by linarith
  with n1 have "take n (rest st) \<noteq> []" by auto
  ultimately have "take n (rest st) \<in> lang (Plus k)" "rest st = take n (rest st) @ rest st'"
    by simp_all
  then show ?case by blast
next
  case (9 r st)
  from 9(2) obtain st2 where a: "st2 \<in> set (rmatch r st)" and b: "rest st' = rest st2"
    by auto
  from 9(1) [OF a] b show ?case by simp
qed




section \<open>The experience pattern\<close>


lemma lang_Seq_iff: "(w \<in> lang (Seq a b)) = (\<exists>u v. w = u @ v \<and> u \<in> lang a \<and> v \<in> lang b)"
  by auto







lemma lang_digits1: "(w \<in> lang (Group (Plus Digit))) = (w \<noteq> [] \<and> (\<forall>c \<in> set w. is_digit c))"
  by simp
















section \<open>The numbers found by \<open>findall\<close>\<close>





















section \<open>Properties of the skill extraction\<close>

text \<open>What \<open>findall\<close> reports is the group of a match somewhere in the text.\<close>

lemma findall_from_Nil:
  "rmatch r \<lparr>prev = p, rest = s, grp = None\<rparr> = []
   \<Longrightarrow> findall_from r p s = (case s of [] \<Rightarrow> [] | c # cs \<Rightarrow> findall_from r (Some c) cs)"
  by (subst findall_from.simps) simp

lemma findall_from_Cons:
  "rmatch r \<lparr>prev = p, rest = s, grp = None\<rparr> = st # sts
   \<Longrightarrow> findall_from r p s
       = (case grp st of None \<Rightarrow> [] | Some g \<Rightarrow> g)
         # (if length (rest st) < length s then findall_from r (prev st) (rest st)
            else (case s of [] \<Rightarrow> [] | c # cs \<Rightarrow> findall_from r (Some c) cs))"
  by (subst findall_from.simps) simp

lemma findall_from_sound:
  "g \<in> set (findall_from r p s)
   \<Longrightarrow> \<exists>pre p' s' st. s = pre @ s'
         \<and> st \<in> set (rmatch r \<lparr>prev = p', rest = s', grp = None\<rparr>)
         \<and> g = (case grp st of None \<Rightarrow> [] | Some g \<Rightarrow> g)"
proof (induction s arbitrary: p rule: length_induct)
  case (1 s p)
  note IH = 1(1) [rule_format]
  show ?case
  proof (cases "rmatch r \<lparr>prev = p, rest = s, grp = None\<rparr>")
    case Nil
    note fa = findall_from_Nil [OF Nil]
    show ?thesis
    proof (cases s)
      case Nil
      from 1(2) [unfolded fa] have "g \<in> set []" unfolding Nil list.case .
      then have False by simp
      then show ?thesis ..
    next
      case (Cons c cs)
      from 1(2) [unfolded fa] have mem: "g \<in> set (findall_from r (Some c) cs)"
        unfolding Cons list.case .
      have len: "length cs < length s" unfolding Cons by simp
      from IH [OF len mem] obtain pre p' s' st where "cs = pre @ s'"
        and st: "st \<in> set (rmatch r \<lparr>prev = p', rest = s', grp = None\<rparr>)"
        and g: "g = (case grp st of None \<Rightarrow> [] | Some g \<Rightarrow> g)"
        by (elim exE conjE)
      then have "s = (c # pre) @ s'" unfolding Cons by simp
      with st g show ?thesis by (intro exI conjI)
    qed
  next
    case (Cons st sts)
    note fa = findall_from_Cons [OF Cons]
    define g0 where "g0 = (case grp st of None \<Rightarrow> [] | Some g \<Rightarrow> g)"
    have here: "st \<in> set (rmatch r \<lparr>prev = p, rest = s, grp = None\<rparr>)"
      unfolding Cons by simp
    have s0: "s = [] @ s" by simp
    have first: "\<exists>pre p' s' st. s = pre @ s'
         \<and> st \<in> set (rmatch r \<lparr>prev = p', rest = s', grp = None\<rparr>)
         \<and> g0 = (case grp st of None \<Rightarrow> [] | Some g \<Rightarrow> g)"
      using s0 here g0_def by (intro exI conjI)
    have later: "\<exists>pre p' s' st. s = pre @ s'
         \<and> st \<in> set (rmatch r \<lparr>prev = p', rest = s', grp = None\<rparr>)
         \<and> g = (case grp st of None \<Rightarrow> [] | Some g \<Rightarrow> g)"
      if len: "length s1 < length s" and mem: "g \<in> set (findall_from r p1 s1)"
        and suf: "s = pre1 @ s1" for p1 s1 pre1
    proof -
      from IH [OF len mem] obtain pre p' s' st where s1: "s1 = pre @ s'"
        and st: "st \<in> set (rmatch r \<lparr>prev = p', rest = s', grp = None\<rparr>)"
        and g: "g = (case grp st of None \<Rightarrow> [] | Some g \<Rightarrow> g)"
        by (elim exE conjE)
      have "s = (pre1 @ pre) @ s'" unfolding suf s1 by simp
      with st g show ?thesis by (intro exI conjI)
    qed
    from rmatch_sound [OF here] obtain w where w: "s = w @ rest st" by auto
    show ?thesis
    proof (cases "length (rest st) < length s")
      case True
      from 1(2) [unfolded fa] True
      have "g = g0 \<or> g \<in> set (findall_from r (prev st) (rest st))"
        unfolding g0_def by simp
      then show ?thesis
      proof
        assume "g = g0"
        with first show ?thesis by simp
      next
        assume "g \<in> set (findall_from r (prev st) (rest st))"
        from later [OF True this w] show ?thesis .
      qed
    next
      case False
      show ?thesis
      proof (cases s)
        case Nil
        from 1(2) [unfolded fa] False have "g = g0"
          unfolding g0_def Nil by simp
        with first show ?thesis by simp
      next
        case (Cons c cs)
        from 1(2) [unfolded fa] False have "g = g0 \<or> g \<in> set (findall_from r (Some c) cs)"
          unfolding g0_def Cons by simp
        then show ?thesis
        proof
          assume "g = g0"
          with first show ?thesis by simp
        next
          assume mem: "g \<in> set (findall_from r (Some c) cs)"
          have len: "length cs < length s" unfolding Cons by simp
          have "s = [c] @ cs" unfolding Cons by simp
          from later [OF len mem this] show ?thesis .
        qed
      qed
    qed
  qed
qed

text \<open>Every skill reported is a token of the vocabulary and occurs in the lower-cased
  text.\<close>

lemma lang_vocabulary: "lang (Alt (map Lit ws)) = set ws"
  by auto

lemma rmatch_SeqE:
  assumes "st' \<in> set (rmatch (Seq r1 r2) st)"
  obtains st1 where "st1 \<in> set (rmatch r1 st)" "st' \<in> set (rmatch r2 st1)"
  using assms by auto

lemma rmatch_WordBD: "st' \<in> set (rmatch WordB st) \<Longrightarrow> st' = st"
  by (auto split: if_splits)

lemma rmatch_GroupE:
  assumes "st' \<in> set (rmatch (Group r) st)"
  obtains st1 where "st1 \<in> set (rmatch r st)"
    "st' = st1\<lparr>grp := Some (take (length (rest st) - length (rest st1)) (rest st))\<rparr>"
  using assms by auto

lemma tech_match_shape:
  assumes "st \<in> set (rmatch tech_patterns st0)"
  obtains w where "w \<in> set skill_vocabulary" "rest st0 = w @ rest st" "grp st = Some w"
proof -
  from assms [unfolded tech_patterns_def] obtain st1 where a: "st1 \<in> set (rmatch WordB st0)"
    and b: "st \<in> set (rmatch (Seq (Group (Alt (map Lit skill_vocabulary))) WordB) st1)"
    by (rule rmatch_SeqE)
  from a have st1: "st1 = st0" by (rule rmatch_WordBD)
  from b [unfolded st1] obtain st2
    where c: "st2 \<in> set (rmatch (Group (Alt (map Lit skill_vocabulary))) st0)"
    and d: "st \<in> set (rmatch WordB st2)"
    by (rule rmatch_SeqE)
  from d have st2: "st = st2" by (rule rmatch_WordBD)
  from c obtain st3 where e: "st3 \<in> set (rmatch (Alt (map Lit skill_vocabulary)) st0)"
    and f: "st2 = st3\<lparr>grp := Some (take (length (rest st0) - length (rest st3)) (rest st0))\<rparr>"
    by (rule rmatch_GroupE)
  from rmatch_sound [OF e] obtain w where w: "w \<in> lang (Alt (map Lit skill_vocabulary))"
    and r: "rest st0 = w @ rest st3" by blast
  from w have voc: "w \<in> set skill_vocabulary" by (simp only: lang_vocabulary)
  have "take (length (rest st0) - length (rest st3)) (rest st0) = w"
    unfolding r by simp
  with f have g: "grp st2 = Some w" by simp
  from f have "rest st2 = rest st3" by simp
  with r have "rest st0 = w @ rest st2" by simp
  with voc g show thesis using that [of w] unfolding st2 by blast
qed

lemma extract_skills_sound:
  assumes "w \<in> extract_skills t"
  shows "w \<in> set skill_vocabulary \<and> occurs_in w (lower t)"
proof -
  from assms have "w \<in> set (findall_from tech_patterns None (lower t))"
    unfolding extract_skills_def findall_def .
  from findall_from_sound [OF this] obtain pre p' s' st where s: "lower t = pre @ s'"
    and st: "st \<in> set (rmatch tech_patterns \<lparr>prev = p', rest = s', grp = None\<rparr>)"
    and g: "w = (case grp st of None \<Rightarrow> [] | Some g \<Rightarrow> g)"
    by (elim exE conjE)
  from st obtain w' where voc: "w' \<in> set skill_vocabulary"
    and r: "rest \<lparr>prev = p', rest = s', grp = None\<rparr> = w' @ rest st"
    and gr: "grp st = Some w'"
    by (rule tech_match_shape)
  from g gr have "w = w'" by simp
  from r have "s' = w' @ rest st" by simp
  then have "lower t = pre @ w' @ rest st" unfolding s by simp
  then have "occurs_in w' (lower t)" unfolding occurs_in_def by (intro exI)
  with voc show ?thesis unfolding \<open>w = w'\<close> by simp
qed

text \<open>
  Claim C4 fails on the code for the vocabulary token \<open>c++\<close>: the pattern ends in
  \<open>\b\<close>, and behind the second \<open>+\<close> there is a word boundary only when a word
  character follows. So \<open>c++\<close> standing as a whole word (before a space or at the end
  of the text) is not reported, while \<open>c++\<close> inside \<open>c++11\<close> is.
\<close>

theorem C4_cpp_whole_word_not_found:
  "''c++'' \<in> set skill_vocabulary
   \<and> extract_skills ''Expert in C++ and Python'' = {''python''}
   \<and> extract_skills ''c++'' = {}
   \<and> extract_skills ''c++11'' = {''c++''}"
  by code_simp

end
